theory Spec2Isabelle
  imports Main "HOL-Library.Sublist"
begin

section \<open>Strings and the JavaScript library functions the parser calls\<close>

text \<open>
  A JavaScript string is modelled as a \<^typ>\<open>string\<close>, each \<^typ>\<open>char\<close> standing for
  one code unit in the range 0..255. The model is exact on ASCII text. A number is a
  \<open>number\<close> (below): the integer value of a double, or an infinity. \<open>NaN\<close> and
  \<open>undefined\<close> are \<open>None\<close>.
\<close>

definition is_ws :: "char \<Rightarrow> bool" where
  \<comment> \<open>the characters matched by \<open>\s\<close> and removed by \<open>trim()\<close>:
     tab, line feed, vertical tab, form feed, carriage return, space, no-break space\<close>
  "is_ws c \<longleftrightarrow> c \<in> set [CHR 0x09, CHR 0x0A, CHR 0x0B, CHR 0x0C, CHR 0x0D, CHR 0x20, CHR 0xA0]"

definition is_digit :: "char \<Rightarrow> bool" where
  \<comment> \<open>\<open>\d\<close>\<close>
  "is_digit c \<longleftrightarrow> c \<in> set ''0123456789''"

definition is_upper :: "char \<Rightarrow> bool" where
  \<comment> \<open>\<open>[A-Z]\<close>\<close>
  "is_upper c \<longleftrightarrow> c \<in> set ''ABCDEFGHIJKLMNOPQRSTUVWXYZ''"

definition upper_char :: "char \<Rightarrow> char" where
  "upper_char c =
     (case map_of (zip ''abcdefghijklmnopqrstuvwxyz'' ''ABCDEFGHIJKLMNOPQRSTUVWXYZ'') c of
        None \<Rightarrow> c
      | Some u \<Rightarrow> u)"

definition toUpperCase :: "string \<Rightarrow> string" where
  \<comment> \<open>\<open>String.prototype.toUpperCase\<close>; code units above 127 are left as they are
     (none of them, nor any of their upper-case images, occurs in a position code or a digit)\<close>
  "toUpperCase s = map upper_char s"

definition trim :: "string \<Rightarrow> string" where
  \<comment> \<open>\<open>String.prototype.trim\<close>\<close>
  "trim s = rev (dropWhile is_ws (rev (dropWhile is_ws s)))"

fun split_nl :: "string \<Rightarrow> string list" where
  \<comment> \<open>\<open>text.split('\n')\<close>: always at least one piece\<close>
  "split_nl [] = [[]]"
| "split_nl (c # cs) =
     (if c = CHR 0x0A then [] # split_nl cs
      else (case split_nl cs of
              [] \<Rightarrow> [[c]]
            | l # ls \<Rightarrow> (c # l) # ls))"

definition replace_tabs :: "string \<Rightarrow> string" where
  \<comment> \<open>\<open>line.replace(/\t/g, ' ')\<close>\<close>
  "replace_tabs s = map (\<lambda>c. if c = CHR 0x09 then CHR 0x20 else c) s"

fun split_matchup_first :: "string \<Rightarrow> string" where
  \<comment> \<open>\<open>s.split(/ vs | @ /)[0]\<close>: the text before the leftmost match of the separator,
     the whole string when there is none. The split has at least one piece, so the
     index 0 is always defined.\<close>
  "split_matchup_first [] = []"
| "split_matchup_first (c # cs) =
     (if prefix '' vs '' (c # cs) \<or> prefix '' @ '' (c # cs) then []
      else c # split_matchup_first cs)"

function split_ws :: "string \<Rightarrow> string list" where
  \<comment> \<open>\<open>s.split(/\s+/)\<close>: the pieces between maximal runs of whitespace; an empty first
     (last) piece when the string starts (ends) with whitespace, and \<open>['']\<close> for the
     empty string\<close>
  "split_ws [] = [[]]"
| "split_ws (c # cs) =
     (if is_ws c then [] # split_ws (dropWhile is_ws cs)
      else (case split_ws cs of
              [] \<Rightarrow> [[c]]
            | t # ts \<Rightarrow> (c # t) # ts))"
  by pat_completeness auto
termination
  by (relation "measure length") (auto simp: le_imp_less_Suc length_dropWhile_le)

definition strip_rank_suffix :: "string \<Rightarrow> string" where
  \<comment> \<open>\<open>s.replace(/[.\)]$/, '')\<close>: one trailing full stop or closing parenthesis removed\<close>
  "strip_rank_suffix s =
     (if s \<noteq> [] \<and> (last s = CHR ''.'' \<or> last s = CHR '')'') then butlast s else s)"

definition digit_val :: "char \<Rightarrow> int" where
  "digit_val c = of_char c - 48"

definition dec_val :: "string \<Rightarrow> int" where
  \<comment> \<open>the value of a string of decimal digits\<close>
  "dec_val ds = foldl (\<lambda>a d. 10 * a + digit_val d) 0 ds"

text \<open>
  The numbers \<open>parseInt\<close> returns: doubles with an integer value, \<open>Infinity\<close> and
  \<open>-Infinity\<close> (\<open>-0\<close> is not told apart from \<open>0\<close>).
\<close>

datatype number = Finite int | PosInfinity | NegInfinity

function bit_length :: "int \<Rightarrow> nat" where
  \<comment> \<open>the number of binary digits of a positive \<open>n\<close>\<close>
  "bit_length n = (if n \<le> 0 then 0 else Suc (bit_length (n div 2)))"
  by pat_completeness auto
termination
  by (relation "measure nat") auto

declare bit_length.simps [simp del]

definition round_int :: "int \<Rightarrow> int" where
  \<comment> \<open>for \<open>n\<close> not negative, the integer with a significand of 53 bits nearest to
     \<open>n\<close>, a tie going to the even significand: exact below \<open>2 ^ 53\<close>\<close>
  "round_int n =
     (if n < 2 ^ 53 then n
      else (let e = bit_length n - 53;
                q = n div 2 ^ e;
                r = n mod 2 ^ e;
                h = 2 ^ (e - 1)
            in (if h < r \<or> (r = h \<and> odd q) then q + 1 else q) * 2 ^ e))"

definition to_number :: "bool \<Rightarrow> int \<Rightarrow> number" where
  \<comment> \<open>the double for the integer \<open>n\<close> (not negative), negated when \<open>neg\<close>: rounded,
     and infinite from \<open>2 ^ 1024\<close> on\<close>
  "to_number neg n =
     (let m = round_int n
      in if 2 ^ 1024 \<le> m then (if neg then NegInfinity else PosInfinity)
         else Finite (if neg then - m else m))"

definition parseInt :: "string \<Rightarrow> number option" where
  \<comment> \<open>\<open>parseInt(s, 10)\<close>: leading whitespace skipped, an optional sign, then the longest
     run of digits, read exactly and turned into the nearest double, as the engines do
     (ECMAScript also lets an engine read the digits after the 20th as 0); \<open>NaN\<close>
     (here \<open>None\<close>) when that run is empty\<close>
  "parseInt s =
     (let t = dropWhile is_ws s;
          neg = (t \<noteq> [] \<and> hd t = CHR ''-'');
          u = (if t \<noteq> [] \<and> (hd t = CHR ''-'' \<or> hd t = CHR ''+'') then tl t else t);
          ds = takeWhile is_digit u
      in if ds = [] then None
         else Some (to_number neg (dec_val ds)))"

definition js_index :: "'a list \<Rightarrow> int \<Rightarrow> 'a option" where
  \<comment> \<open>\<open>xs[i]\<close>: \<open>undefined\<close> (here \<open>None\<close>) outside the array\<close>
  "js_index xs i = (if 0 \<le> i \<and> i < int (length xs) then Some (xs ! nat i) else None)"

fun join_sp :: "string list \<Rightarrow> string" where
  \<comment> \<open>\<open>xs.join(' ')\<close>\<close>
  "join_sp [] = []"
| "join_sp [x] = x"
| "join_sp (x # y # ys) = x @ CHR 0x20 # join_sp (y # ys)"

section \<open>Data model\<close>

text \<open>The interface \<open>Player\<close>; an optional field that is \<open>undefined\<close> is \<open>None\<close>.\<close>

record player =
  rank :: number
  name :: string
  position :: string
  positionalRank :: "number option"
  team :: "string option"

text \<open>The result \<open>{ base: string; rank?: number }\<close> of \<open>extractPositionAndRank\<close>
  (its field \<open>rank\<close> is called \<open>prank\<close> here, apart from the player's \<open>rank\<close>).\<close>

record position_info =
  base :: string
  prank :: "number option"

datatype error = TypeError | ParseFailed

section \<open>PositionMatcher and TeamMatcher\<close>

definition BASE_POSITIONS :: "string list" where
  "BASE_POSITIONS = [''QB'', ''RB'', ''WR'', ''TE'', ''K'', ''DST'', ''DEF'']"

fun match_positions :: "string list \<Rightarrow> string \<Rightarrow> position_info option" where
  \<comment> \<open>the loop \<open>for (const pos of BASE_POSITIONS)\<close> over the upper-cased token\<close>
  "match_positions [] upperPart = None"
| "match_positions (pos # poss) upperPart =
     (if prefix pos upperPart then
        (let rest = drop (length pos) upperPart in
         if list_all is_digit rest then
           Some \<lparr>base = (if pos = ''DEF'' then ''DST'' else pos), prank = parseInt rest\<rparr>
         else match_positions poss upperPart)
      else match_positions poss upperPart)"

definition extractPositionAndRank :: "string \<Rightarrow> position_info option" where
  "extractPositionAndRank part =
     (if part = [] then None
      else match_positions BASE_POSITIONS (toUpperCase part))"

definition isTeam :: "string \<Rightarrow> bool" where
  \<comment> \<open>\<open>/^[A-Z]{2,3}$/\<close>\<close>
  "isTeam part \<longleftrightarrow>
     part \<noteq> [] \<and> list_all is_upper part \<and> (length part = 2 \<or> length part = 3)"

section \<open>The line parser, team-aware variant\<close>

definition parts_team :: "string \<Rightarrow> string list" where
  \<comment> \<open>\<open>tabsReplaced\<close>, \<open>cleanLine\<close> and \<open>parts\<close> of the loop body\<close>
  "parts_team line =
     (let tabsReplaced = replace_tabs line;
          cleanLine = split_matchup_first tabsReplaced
      in split_ws (trim cleanLine))"

definition resolve_team ::
  "string list \<Rightarrow> error + (position_info option \<times> string option \<times> int)" where
  \<comment> \<open>from \<open>let positionInfo\<close> to the end of the \<open>if (p1_pos) ... else if (p1_team)\<close>
     statement; the result is \<open>(positionInfo, teamInfo, nameEndIndex)\<close>. A call of
     \<open>extractPositionAndRank\<close> or \<open>isTeam\<close> on \<open>undefined\<close> returns \<open>null\<close> or
     \<open>false\<close> through the guard \<open>!part\<close>; \<open>toUpperCase\<close> on it throws.\<close>
  "resolve_team potentialNameParts =
     (let nameEndIndex = int (length potentialNameParts);
          p1 = js_index potentialNameParts (nameEndIndex - 1);
          p2 = (if nameEndIndex > 1 then js_index potentialNameParts (nameEndIndex - 2)
                else None);
          p1_pos = (case p1 of None \<Rightarrow> None | Some s \<Rightarrow> extractPositionAndRank s);
          p1_team = (case p1 of None \<Rightarrow> False | Some s \<Rightarrow> isTeam s);
          p2_pos = (case p2 of None \<Rightarrow> None
                    | Some s \<Rightarrow> if s = [] then None else extractPositionAndRank s);
          p2_team = (case p2 of None \<Rightarrow> False | Some s \<Rightarrow> s \<noteq> [] \<and> isTeam s)
      in case p1_pos of
           Some pos \<Rightarrow>
             (if p2_team then
                (case p2 of
                   None \<Rightarrow> Inl TypeError
                 | Some s \<Rightarrow> Inr (Some pos, Some (toUpperCase s), nameEndIndex - 2))
              else Inr (Some pos, None, nameEndIndex - 1))
         | None \<Rightarrow>
             (if p1_team then
                (case p1 of
                   None \<Rightarrow> Inl TypeError
                 | Some s \<Rightarrow>
                     (case p2_pos of
                        Some pos \<Rightarrow> Inr (Some pos, Some (toUpperCase s), nameEndIndex - 2)
                      | None \<Rightarrow> Inr (None, Some (toUpperCase s), nameEndIndex)))
              else Inr (None, None, nameEndIndex)))"

definition parseLine_team :: "string \<Rightarrow> error + player option" where
  \<comment> \<open>one pass of the loop body: \<open>Inr None\<close> is a skipped line (\<open>continue\<close>, or no
     \<open>push\<close>), \<open>Inr (Some p)\<close> the record pushed, \<open>Inl e\<close> an exception thrown.
     \<open>console.log(parts)\<close> has no effect on the result.\<close>
  "parseLine_team line =
     (let parts = parts_team line in
      if length parts < 2 then Inr None
      else
        (case js_index parts 0 of
           None \<Rightarrow> Inl TypeError
         | Some part0 \<Rightarrow>
             (case parseInt (strip_rank_suffix part0) of
                None \<Rightarrow> Inr None
              | Some rank' \<Rightarrow>
                  (let potentialNameParts = drop 1 parts in
                   if length potentialNameParts = 0 then Inr None
                   else
                     (case resolve_team potentialNameParts of
                        Inl e \<Rightarrow> Inl e
                      | Inr (positionInfo, teamInfo, nameEndIndex) \<Rightarrow>
                          (case positionInfo of
                             None \<Rightarrow> Inr None
                           | Some pos \<Rightarrow>
                               if nameEndIndex > 0 then
                                 Inr (Some \<lparr>rank = rank',
                                   name = join_sp (take (nat nameEndIndex) potentialNameParts),
                                   position = base pos,
                                   positionalRank = prank pos,
                                   team = teamInfo\<rparr>)
                               else Inr None))))))"

section \<open>The line parser, basic variant\<close>

fun find_position :: "string list \<Rightarrow> nat \<Rightarrow> (position_info \<times> nat) option" where
  \<comment> \<open>the loop \<open>for (let i = potentialNameParts.length - 1; i >= 0; i--)\<close>;
     \<open>find_position ps (Suc i)\<close> looks at index \<open>i\<close>, and the result is
     \<open>(positionInfo, positionPartIndex)\<close>\<close>
  "find_position potentialNameParts 0 = None"
| "find_position potentialNameParts (Suc i) =
     (case js_index potentialNameParts (int i) of
        None \<Rightarrow> find_position potentialNameParts i
      | Some part \<Rightarrow>
          (case extractPositionAndRank part of
             Some pos \<Rightarrow> Some (pos, i)
           | None \<Rightarrow> find_position potentialNameParts i))"

definition parseLine_basic :: "string \<Rightarrow> error + player option" where
  "parseLine_basic line =
     (let cleanLine = split_matchup_first line;
          parts = split_ws (trim cleanLine)
      in if length parts < 2 then Inr None
         else
           (case js_index parts 0 of
              None \<Rightarrow> Inl TypeError
            | Some part0 \<Rightarrow>
                (case parseInt (strip_rank_suffix part0) of
                   None \<Rightarrow> Inr None
                 | Some rank' \<Rightarrow>
                     (let potentialNameParts = drop 1 parts in
                      case find_position potentialNameParts (length potentialNameParts) of
                        None \<Rightarrow> Inr None
                      | Some (positionInfo, positionPartIndex) \<Rightarrow>
                          (let name' = join_sp (take positionPartIndex potentialNameParts) in
                           if name' \<noteq> [] then
                             Inr (Some \<lparr>rank = rank',
                               name = name',
                               position = base positionInfo,
                               positionalRank = prank positionInfo,
                               team = None\<rparr>)
                           else Inr None)))))"

section \<open>The multi-line driver\<close>

definition nonblank_lines :: "string \<Rightarrow> string list" where
  \<comment> \<open>\<open>text.split('\n').filter(line => line.trim() !== '')\<close>\<close>
  "nonblank_lines text = filter (\<lambda>line. trim line \<noteq> []) (split_nl text)"

fun parse_lines :: "(string \<Rightarrow> error + player option) \<Rightarrow> string list \<Rightarrow> player list
    \<Rightarrow> error + player list" where
  \<comment> \<open>\<open>for (const line of lines)\<close> with the array \<open>players\<close> as accumulator; an
     exception leaves the loop\<close>
  "parse_lines body [] players = Inr players"
| "parse_lines body (line # lines) players =
     (case body line of
        Inl e \<Rightarrow> Inl e
      | Inr None \<Rightarrow> parse_lines body lines players
      | Inr (Some p) \<Rightarrow> parse_lines body lines (players @ [p]))"

definition run_promise :: "error + player list \<Rightarrow> error + player list" where
  \<comment> \<open>\<open>try { ... resolve(players) } catch (error) { reject(new Error(...)) }\<close>\<close>
  "run_promise r = (case r of Inl e \<Rightarrow> Inl ParseFailed | Inr players \<Rightarrow> Inr players)"

definition parseRankingsFromText_team :: "string \<Rightarrow> error + player list" where
  "parseRankingsFromText_team text =
     run_promise (parse_lines parseLine_team (nonblank_lines text) [])"

definition parseRankingsFromText_basic :: "string \<Rightarrow> error + player list" where
  "parseRankingsFromText_basic text =
     run_promise (parse_lines parseLine_basic (nonblank_lines text) [])"

definition emitted :: "(string \<Rightarrow> error + player option) \<Rightarrow> string \<Rightarrow> player list" where
  \<comment> \<open>the records one pass of the loop body appends to \<open>players\<close> (none or one)\<close>
  "emitted body line = (case body line of Inr (Some p) \<Rightarrow> [p] | _ \<Rightarrow> [])"

definition erase_team :: "player \<Rightarrow> player" where
  "erase_team p = p\<lparr>team := None\<rparr>"



section \<open>The driver never fails and keeps the order of the lines\<close>

lemma parse_lines_total:
  "(\<forall>l \<in> set ls. \<exists>r. body l = Inr r) \<Longrightarrow>
     parse_lines body ls acc = Inr (acc @ concat (map (emitted body) ls))"
proof (induction ls arbitrary: acc)
  case Nil
  show ?case by simp
next
  case (Cons l ls)
  then obtain r where r: "body l = Inr r" by auto
  from Cons have IH: "\<And>acc. parse_lines body ls acc = Inr (acc @ concat (map (emitted body) ls))"
    by simp
  have e: "emitted body l = (case r of None \<Rightarrow> [] | Some p \<Rightarrow> [p])"
    by (simp add: emitted_def r)
  show ?case
    by (cases r) (simp_all add: r IH e)
qed

lemma resolve_team_total: "\<exists>r. resolve_team ps = Inr r"
  by (auto simp: resolve_team_def Let_def split: option.splits)

lemma parseLine_team_total: "\<exists>r. parseLine_team line = Inr r"
proof -
  obtain r where "resolve_team (drop 1 (parts_team line)) = Inr r"
    using resolve_team_total by blast
  then show ?thesis
    by (auto simp: parseLine_team_def Let_def js_index_def split: option.splits prod.splits)
qed

lemma parseLine_basic_total: "\<exists>r. parseLine_basic line = Inr r"
  by (auto simp: parseLine_basic_def Let_def js_index_def split: option.splits prod.splits)

lemma parse_team_eq:
  "parseRankingsFromText_team text =
     Inr (concat (map (emitted parseLine_team) (nonblank_lines text)))"
  by (simp add: parseRankingsFromText_team_def run_promise_def
      parse_lines_total [where acc = "[]", simplified] parseLine_team_total)

lemma parse_basic_eq:
  "parseRankingsFromText_basic text =
     Inr (concat (map (emitted parseLine_basic) (nonblank_lines text)))"
  by (simp add: parseRankingsFromText_basic_def run_promise_def
      parse_lines_total [where acc = "[]", simplified] parseLine_basic_total)

section \<open>Team-aware layouts\<close>

text \<open>
  C1. Whatever the input text, a line \<open>5 Patrick Mahomes KC QB1\<close> (team, then position)
  and a line \<open>5 Patrick Mahomes QB1 KC\<close> (position, then team) of it are parsed by the
  team-aware variant to the same record: rank 5, name Patrick Mahomes, team KC,
  position QB, positional rank 1; and that record is in the output.
\<close>

theorem team_layouts_same_record:
  assumes "line = ''5 Patrick Mahomes KC QB1'' \<or> line = ''5 Patrick Mahomes QB1 KC''"
    and "line \<in> set (nonblank_lines text)"
  shows "parseLine_team line =
      Inr (Some \<lparr>rank = Finite 5, name = ''Patrick Mahomes'', position = ''QB'',
                 positionalRank = Some (Finite 1), team = Some ''KC''\<rparr>)
    \<and> (\<exists>ps. parseRankingsFromText_team text = Inr ps
          \<and> \<lparr>rank = Finite 5, name = ''Patrick Mahomes'', position = ''QB'',
               positionalRank = Some (Finite 1), team = Some ''KC''\<rparr> \<in> set ps)"
proof -
  let ?R = "\<lparr>rank = Finite 5, name = ''Patrick Mahomes'', position = ''QB'',
              positionalRank = Some (Finite 1), team = Some ''KC''\<rparr>"
  have e1: "parseLine_team ''5 Patrick Mahomes KC QB1'' = Inr (Some ?R)" by code_simp
  have e2: "parseLine_team ''5 Patrick Mahomes QB1 KC'' = Inr (Some ?R)" by code_simp
  from assms(1) e1 e2 have l: "parseLine_team line = Inr (Some ?R)" by (elim disjE) simp_all
  then have "emitted parseLine_team line = [?R]" by (simp add: emitted_def)
  with assms(2) have "?R \<in> set (concat (map (emitted parseLine_team) (nonblank_lines text)))"
    by force
  with l show ?thesis by (simp add: parse_team_eq)
qed

theorem team_layouts_same_record_witness:
  "''5 Patrick Mahomes QB1 KC'' \<in> set (nonblank_lines (''1 Josh Allen QB'' @ [CHR 0x0A] @ ''5 Patrick Mahomes QB1 KC''))
   \<and> parseLine_team ''5 Patrick Mahomes QB1 KC'' =
      Inr (Some \<lparr>rank = Finite 5, name = ''Patrick Mahomes'', position = ''QB'',
                 positionalRank = Some (Finite 1), team = Some ''KC''\<rparr>)
   \<and> (\<exists>ps. parseRankingsFromText_team (''1 Josh Allen QB'' @ [CHR 0x0A] @ ''5 Patrick Mahomes QB1 KC'') = Inr ps
          \<and> \<lparr>rank = Finite 5, name = ''Patrick Mahomes'', position = ''QB'',
               positionalRank = Some (Finite 1), team = Some ''KC''\<rparr> \<in> set ps)"
proof -
  have h: "''5 Patrick Mahomes QB1 KC'' \<in> set (nonblank_lines (''1 Josh Allen QB'' @ [CHR 0x0A] @ ''5 Patrick Mahomes QB1 KC''))"
    by code_simp
  show ?thesis
    by (intro conjI h team_layouts_same_record [OF disjI2 [OF refl] h, THEN conjunct1]
        team_layouts_same_record [OF disjI2 [OF refl] h, THEN conjunct2])
qed

text \<open>
  C10. In the team-aware variant, a line whose tokens after the rank token are exactly two,
  a token of two or three upper-case letters followed by a token that matches a position
  (as in \<open>4 CJ WR2\<close>), emits no record: the upper-case token is taken as the team, no
  token is left for the name, and the guard \<open>nameEndIndex > 0\<close> drops the line.
\<close>

theorem team_no_name_dropped:
  assumes "parts_team line = [r, t, p]"
    and "isTeam t"
    and "extractPositionAndRank p \<noteq> None"
  shows "parseLine_team line = Inr None"
  using assms
  by (auto simp: parseLine_team_def resolve_team_def js_index_def isTeam_def Let_def
      split: option.splits)

theorem team_no_name_dropped_witness:
  "parts_team ''4 CJ WR2'' = [''4'', ''CJ'', ''WR2''] \<and> isTeam ''CJ''
   \<and> extractPositionAndRank ''WR2'' \<noteq> None \<and> parseLine_team ''4 CJ WR2'' = Inr None"
proof -
  have h1: "parts_team ''4 CJ WR2'' = [''4'', ''CJ'', ''WR2'']" by code_simp
  have h2: "isTeam ''CJ''" by code_simp
  have h3: "extractPositionAndRank ''WR2'' \<noteq> None" by code_simp
  show ?thesis
    by (intro conjI h1 h2 h3 team_no_name_dropped [OF h1 h2 h3])
qed

section \<open>The two strategies\<close>

text \<open>
  C9. The basic right-to-left scan and the team-aware look at the last two tokens are not
  interchangeable: on the text \<open>8 Josh Allen QB1 at KC\<close> the basic variant emits a record
  and the team-aware variant emits none, and on \<open>5 Patrick Mahomes KC QB1\<close> the names
  differ; so for some text the outputs differ even with the team field erased.
\<close>

theorem strategies_differ:
  "parseRankingsFromText_basic ''8 Josh Allen QB1 at KC'' =
      Inr [\<lparr>rank = Finite 8, name = ''Josh Allen'', position = ''QB'',
            positionalRank = Some (Finite 1), team = None\<rparr>]
   \<and> parseRankingsFromText_team ''8 Josh Allen QB1 at KC'' = Inr []
   \<and> parseRankingsFromText_basic ''5 Patrick Mahomes KC QB1'' =
      Inr [\<lparr>rank = Finite 5, name = ''Patrick Mahomes KC'', position = ''QB'',
            positionalRank = Some (Finite 1), team = None\<rparr>]
   \<and> parseRankingsFromText_team ''5 Patrick Mahomes KC QB1'' =
      Inr [\<lparr>rank = Finite 5, name = ''Patrick Mahomes'', position = ''QB'',
            positionalRank = Some (Finite 1), team = Some ''KC''\<rparr>]
   \<and> (\<exists>text ps qs. parseRankingsFromText_basic text = Inr ps
         \<and> parseRankingsFromText_team text = Inr qs
         \<and> map erase_team ps \<noteq> map erase_team qs)"
proof -
  have b1: "parseRankingsFromText_basic ''8 Josh Allen QB1 at KC'' =
      Inr [\<lparr>rank = Finite 8, name = ''Josh Allen'', position = ''QB'',
            positionalRank = Some (Finite 1), team = None\<rparr>]" by code_simp
  have t1: "parseRankingsFromText_team ''8 Josh Allen QB1 at KC'' = Inr []" by code_simp
  have b2: "parseRankingsFromText_basic ''5 Patrick Mahomes KC QB1'' =
      Inr [\<lparr>rank = Finite 5, name = ''Patrick Mahomes KC'', position = ''QB'',
            positionalRank = Some (Finite 1), team = None\<rparr>]" by code_simp
  have t2: "parseRankingsFromText_team ''5 Patrick Mahomes KC QB1'' =
      Inr [\<lparr>rank = Finite 5, name = ''Patrick Mahomes'', position = ''QB'',
            positionalRank = Some (Finite 1), team = Some ''KC''\<rparr>]" by code_simp
  have d: "map erase_team [\<lparr>rank = Finite 8, name = ''Josh Allen'', position = ''QB'',
            positionalRank = Some (Finite 1), team = None\<rparr>] \<noteq> map erase_team []" by simp
  from b1 t1 d have ex: "\<exists>text ps qs. parseRankingsFromText_basic text = Inr ps
         \<and> parseRankingsFromText_team text = Inr qs
         \<and> map erase_team ps \<noteq> map erase_team qs"
    by (intro exI conjI)
  show ?thesis
    by (intro conjI b1 t1 b2 t2 ex)
qed

section \<open>PositionMatcher\<close>

lemma prefix_split: "prefix pos up \<Longrightarrow> up = pos @ drop (length pos) up"
  by (auto simp: prefix_def)

lemma match_positions_sound:
  "match_positions poss up = Some r \<Longrightarrow>
     \<exists>pos \<in> set poss. \<exists>ds. up = pos @ ds \<and> list_all is_digit ds \<and>
        base r = (if pos = ''DEF'' then ''DST'' else pos) \<and> prank r = parseInt ds"
proof (induction poss)
  case Nil
  then show ?case by simp
next
  case (Cons pos poss)
  show ?case
  proof (cases "prefix pos up \<and> list_all is_digit (drop (length pos) up)")
    case True
    then have up: "up = pos @ drop (length pos) up"
      using prefix_split by blast
    from True Cons.prems
    have r: "r = \<lparr>base = (if pos = ''DEF'' then ''DST'' else pos),
                   prank = parseInt (drop (length pos) up)\<rparr>"
      by (simp add: Let_def)
    have "base r = (if pos = ''DEF'' then ''DST'' else pos)"
      and "prank r = parseInt (drop (length pos) up)"
      by (simp_all add: r)
    with True up show ?thesis
      by (metis list.set_intros(1))
  next
    case False
    with Cons.prems have "match_positions poss up = Some r"
      by (auto simp: Let_def split: if_splits)
    from Cons.IH [OF this] show ?thesis by auto
  qed
qed

lemma digit_not_ws: "is_digit c \<Longrightarrow> \<not> is_ws c"
  by (auto simp: is_digit_def is_ws_def)

lemma digit_not_sign: "is_digit c \<Longrightarrow> c \<noteq> CHR ''-'' \<and> c \<noteq> CHR ''+''"
  by (auto simp: is_digit_def)

lemma to_number_exact:
  assumes "n < 2 ^ 53"
  shows "to_number neg n = Finite (if neg then - n else n)"
proof -
  have "(2::int) ^ 53 \<le> 2 ^ 1024" by (rule power_increasing) simp_all
  with assms have "\<not> (2::int) ^ 1024 \<le> n" by linarith
  moreover from assms have "round_int n = n" by (simp add: round_int_def)
  ultimately show ?thesis by (simp add: to_number_def)
qed






lemma bit_length_upper: "n < 2 ^ bit_length n"
proof (induction n rule: bit_length.induct)
  case (1 n)
  show ?case
  proof (cases "n \<le> 0")
    case True
    then show ?thesis by (simp add: bit_length.simps [of n])
  next
    case False
    define k :: int where "k = 2 ^ bit_length (n div 2)"
    from "1.IH" [OF False] have "n div 2 < k" by (simp add: k_def)
    then have "n < 2 * k" by presburger
    with False show ?thesis by (simp add: bit_length.simps [of n] k_def)
  qed
qed

lemma bit_length_lower: "0 < n \<Longrightarrow> 2 ^ (bit_length n - 1) \<le> n"
proof (induction n rule: bit_length.induct)
  case (1 n)
  then have pos: "\<not> n \<le> 0" by simp
  show ?case
  proof (cases "n div 2 \<le> 0")
    case True
    then have "bit_length (n div 2) = 0" by (simp add: bit_length.simps [of "n div 2"])
    with pos "1.prems" show ?thesis by (simp add: bit_length.simps [of n])
  next
    case False
    then have h: "0 < n div 2" by simp
    define k :: int where "k = 2 ^ (bit_length (n div 2) - 1)"
    from "1.IH" [OF pos h] have "k \<le> n div 2" by (simp add: k_def)
    then have le: "2 * k \<le> n" by presburger
    from False have "bit_length (n div 2) \<noteq> 0"
      by (simp add: bit_length.simps [of "n div 2"])
    then obtain j where j: "bit_length (n div 2) = Suc j" by (cases "bit_length (n div 2)") auto
    with pos le show ?thesis by (simp add: bit_length.simps [of n] k_def)
  qed
qed

lemma round_int_nearest:
  assumes "2 ^ 53 \<le> n"
  shows "\<exists>q e. round_int n = q * 2 ^ e \<and> 2 ^ 52 \<le> q \<and> q \<le> 2 ^ 53
           \<and> 2 * \<bar>round_int n - n\<bar> \<le> 2 ^ e"
proof -
  define b where "b = bit_length n"
  define e where "e = b - 53"
  define q where "q = n div 2 ^ e"
  define r where "r = n mod 2 ^ e"
  define h :: int where "h = 2 ^ (e - 1)"
  from assms have pos: "0 < n" by (smt (verit) zero_less_power)
  have up: "n < 2 ^ b" unfolding b_def by (rule bit_length_upper)
  have lo: "2 ^ (b - 1) \<le> n" unfolding b_def using pos by (rule bit_length_lower)
  have b54: "54 \<le> b"
  proof (rule ccontr)
    assume "\<not> 54 \<le> b"
    then have "b \<le> 53" by simp
    then have "(2::int) ^ b \<le> 2 ^ 53" by (intro power_increasing) simp_all
    with up assms show False by linarith
  qed
  then have e1: "1 \<le> e" and be: "b = e + 53" by (simp_all add: e_def)
  have two_e: "(2::int) ^ e = 2 * h"
    using e1 unfolding h_def by (cases e) simp_all
  have n: "n = q * 2 ^ e + r" unfolding q_def r_def by (rule div_mult_mod_eq [symmetric])
  have r0: "0 \<le> r" and r1: "r < 2 ^ e" unfolding r_def by simp_all
  have pe: "(0::int) < 2 ^ e" by simp
  have nu: "n < 2 ^ 53 * 2 ^ e" using up unfolding be by (simp add: power_add mult.commute)
  from n r0 have "q * 2 ^ e \<le> n" by linarith
  with nu have "q * 2 ^ e < 2 ^ 53 * 2 ^ e" by linarith
  then have qu: "q < 2 ^ 53"
    by (simp only: mult_less_cancel_right_pos [OF pe])
  have "(2::int) ^ 52 * 2 ^ e = 2 ^ (b - 1)" unfolding be by (simp add: power_add mult.commute)
  with lo have nl: "2 ^ 52 * 2 ^ e \<le> n" by simp
  from n r1 have "n < (q + 1) * 2 ^ e" by (simp add: algebra_simps)
  with nl have "2 ^ 52 * 2 ^ e < (q + 1) * 2 ^ e" by linarith
  then have "2 ^ 52 < q + 1"
    by (simp only: mult_less_cancel_right_pos [OF pe])
  then have ql: "2 ^ 52 \<le> q" by simp
  have rnd: "round_int n = (if h < r \<or> (r = h \<and> odd q) then q + 1 else q) * 2 ^ e"
    using assms unfolding round_int_def Let_def b_def e_def q_def r_def h_def by simp
  show ?thesis
  proof (cases "h < r \<or> (r = h \<and> odd q)")
    case True
    with rnd have v: "round_int n = (q + 1) * 2 ^ e" by simp
    have "round_int n - n = 2 ^ e - r" unfolding v using n by (simp add: algebra_simps)
    with True r1 two_e have "2 * \<bar>round_int n - n\<bar> \<le> 2 ^ e" by auto
    with v ql qu show ?thesis
      by (intro exI [of _ "q + 1"] exI [of _ e]) simp
  next
    case False
    with rnd have v: "round_int n = q * 2 ^ e" by simp
    have "round_int n - n = - r" unfolding v using n by simp
    with False r0 two_e have "2 * \<bar>round_int n - n\<bar> \<le> 2 ^ e" by auto
    with v ql qu show ?thesis
      by (intro exI [of _ q] exI [of _ e]) simp
  qed
qed

lemma to_number_rounded:
  assumes "2 ^ 53 \<le> n"
  shows "\<exists>q e. 2 ^ 52 \<le> q \<and> q \<le> 2 ^ 53 \<and> 2 * \<bar>q * 2 ^ e - n\<bar> \<le> 2 ^ e
           \<and> to_number False n =
               (if 2 ^ 1024 \<le> q * 2 ^ e then PosInfinity else Finite (q * 2 ^ e))"
proof -
  from round_int_nearest [OF assms] obtain q e
    where r: "round_int n = q * 2 ^ e" and q: "2 ^ 52 \<le> q" "q \<le> 2 ^ 53"
      and d: "2 * \<bar>round_int n - n\<bar> \<le> 2 ^ e" by blast
  have "to_number False n =
      (if 2 ^ 1024 \<le> round_int n then PosInfinity else Finite (round_int n))"
    by (simp add: to_number_def Let_def)
  with q d show ?thesis unfolding r by blast
qed

lemma parseInt_digits:
  assumes "list_all is_digit ds"
  shows "parseInt ds = (if ds = [] then None else Some (to_number False (dec_val ds)))"
proof (cases "ds = []")
  case True
  then show ?thesis by (simp add: parseInt_def)
next
  case False
  from assms have all: "\<forall>c \<in> set ds. is_digit c"
    by (simp add: list_all_iff)
  with False have d: "is_digit (hd ds)" by simp
  have dw: "dropWhile is_ws ds = ds"
    using d False digit_not_ws by (cases ds) simp_all
  have tw: "takeWhile is_digit ds = ds"
    using all by (simp add: takeWhile_eq_all_conv)
  have "parseInt ds = Some (to_number False (dec_val ds))"
    unfolding parseInt_def Let_def dw
    using False digit_not_sign [OF d] by (simp add: tw)
  with False show ?thesis by simp
qed

lemma match_positions_complete:
  assumes "pos \<in> set BASE_POSITIONS" and "list_all is_digit ds"
  shows "match_positions BASE_POSITIONS (pos @ ds) =
     Some \<lparr>base = (if pos = ''DEF'' then ''DST'' else pos), prank = parseInt ds\<rparr>"
proof -
  from assms(1) consider "pos = ''QB''" | "pos = ''RB''" | "pos = ''WR''" | "pos = ''TE''"
    | "pos = ''K''" | "pos = ''DST''" | "pos = ''DEF''"
    unfolding BASE_POSITIONS_def by fastforce
  then show ?thesis
  proof cases
    case 1
    then show ?thesis by (simp add: BASE_POSITIONS_def assms(2))
  next
    case 2
    then show ?thesis by (simp add: BASE_POSITIONS_def assms(2))
  next
    case 3
    then show ?thesis by (simp add: BASE_POSITIONS_def assms(2))
  next
    case 4
    then show ?thesis by (simp add: BASE_POSITIONS_def assms(2))
  next
    case 5
    then show ?thesis by (simp add: BASE_POSITIONS_def assms(2))
  next
    case 6
    then show ?thesis by (simp add: BASE_POSITIONS_def assms(2))
  next
    case 7
    then show ?thesis by (simp add: BASE_POSITIONS_def assms(2))
  qed
qed

lemma upper_char_digit: "is_digit c \<Longrightarrow> upper_char c = c"
  unfolding is_digit_def
  apply simp
  apply (elim disjE)
  apply (simp_all add: upper_char_def)
  done

lemma match_positions_no_prefix:
  "(\<forall>pos \<in> set poss. \<not> prefix pos up) \<Longrightarrow> match_positions poss up = None"
  by (induction poss) simp_all

lemma digit_head_cases:
  "is_digit c \<Longrightarrow> CHR ''Q'' \<noteq> c \<and> CHR ''R'' \<noteq> c \<and> CHR ''W'' \<noteq> c \<and> CHR ''T'' \<noteq> c
     \<and> CHR ''K'' \<noteq> c \<and> CHR ''D'' \<noteq> c"
  unfolding is_digit_def by auto

lemma match_positions_digit_head:
  assumes "is_digit c"
  shows "match_positions BASE_POSITIONS (c # cs) = None"
proof (rule match_positions_no_prefix)
  show "\<forall>pos \<in> set BASE_POSITIONS. \<not> prefix pos (c # cs)"
    using digit_head_cases [OF assms] by (simp add: BASE_POSITIONS_def)
qed

lemma extract_numeric:
  assumes "list_all is_digit tok"
  shows "extractPositionAndRank tok = None"
proof (cases tok)
  case Nil
  then show ?thesis by (simp add: extractPositionAndRank_def)
next
  case (Cons c cs)
  with assms have "is_digit c" by simp
  then show ?thesis
    by (simp add: extractPositionAndRank_def toUpperCase_def Cons upper_char_digit
        match_positions_digit_head)
qed

text \<open>
  C2 as stated returns the digits after the base code as the positional rank. What
  \<open>parseInt\<close> returns is a double: for the token \<open>QB9007199254740993\<close> the positional
  rank is 9007199254740992, and for \<open>QB\<close> followed by 310 digits 9 it is
  \<open>Infinity\<close>.
\<close>

theorem digits_as_rank_counterexample:
  "dec_val ''9007199254740993'' = 9007199254740993
   \<and> extractPositionAndRank ''QB9007199254740993'' =
      Some \<lparr>base = ''QB'', prank = Some (Finite 9007199254740992)\<rparr>
   \<and> extractPositionAndRank (''QB'' @ replicate 310 CHR ''9'') =
      Some \<lparr>base = ''QB'', prank = Some PosInfinity\<rparr>"
proof -
  have v: "dec_val ''9007199254740993'' = 9007199254740993" by code_simp
  have r: "extractPositionAndRank ''QB9007199254740993'' =
      Some \<lparr>base = ''QB'', prank = Some (Finite 9007199254740992)\<rparr>" by code_simp
  have i: "extractPositionAndRank (''QB'' @ replicate 310 CHR ''9'') =
      Some \<lparr>base = ''QB'', prank = Some PosInfinity\<rparr>" by code_simp
  show ?thesis by (intro conjI v r i)
qed

text \<open>
  C2, as the code has it. \<open>extractPositionAndRank\<close> returns a match exactly when the
  upper-cased token is one of the base codes QB, RB, WR, TE, K, DST, DEF followed by
  digits only (possibly none). For every such reading of the token the result is that
  base code, with DEF turned into DST, and as positional rank the number \<open>parseInt\<close>
  reads from the digits, absent when there are no digits. That number is the decimal value
  of the digits when this is below \<open>2 ^ 53\<close>; from there on it is that value rounded to a
  double (a significand \<open>q\<close> of 53 bits times a power of two, at most half a unit of
  the last place away), and \<open>Infinity\<close> when the rounded value reaches \<open>2 ^ 1024\<close>.
  A token of digits only never matches.
\<close>

theorem extractPositionAndRank_spec:
  "((\<exists>r. extractPositionAndRank tok = Some r) \<longleftrightarrow>
      (\<exists>pos \<in> set BASE_POSITIONS. \<exists>ds. toUpperCase tok = pos @ ds \<and> list_all is_digit ds))
   \<and> (\<forall>pos \<in> set BASE_POSITIONS. \<forall>ds.
        toUpperCase tok = pos @ ds \<and> list_all is_digit ds \<longrightarrow>
        extractPositionAndRank tok =
          Some \<lparr>base = (if pos = ''DEF'' then ''DST'' else pos),
                prank = (if ds = [] then None else Some (to_number False (dec_val ds)))\<rparr>)
   \<and> (\<forall>n < 2 ^ 53. to_number False n = Finite n)
   \<and> (\<forall>n \<ge> 2 ^ 53. \<exists>q e. 2 ^ 52 \<le> q \<and> q \<le> 2 ^ 53 \<and> 2 * \<bar>q * 2 ^ e - n\<bar> \<le> 2 ^ e
          \<and> to_number False n =
              (if 2 ^ 1024 \<le> q * 2 ^ e then PosInfinity else Finite (q * 2 ^ e)))
   \<and> (list_all is_digit tok \<longrightarrow> extractPositionAndRank tok = None)"
proof -
  have complete: "extractPositionAndRank tok =
          Some \<lparr>base = (if pos = ''DEF'' then ''DST'' else pos),
                prank = (if ds = [] then None else Some (to_number False (dec_val ds)))\<rparr>"
    if pos: "pos \<in> set BASE_POSITIONS" and up: "toUpperCase tok = pos @ ds"
      and ds: "list_all is_digit ds" for pos ds
  proof -
    from pos have "pos \<noteq> []" by (auto simp: BASE_POSITIONS_def)
    with up have "tok \<noteq> []" by (auto simp: toUpperCase_def)
    then show ?thesis
      using match_positions_complete [OF pos ds] parseInt_digits [OF ds]
      by (simp add: extractPositionAndRank_def up)
  qed
  have sound: "\<exists>pos \<in> set BASE_POSITIONS. \<exists>ds. toUpperCase tok = pos @ ds \<and> list_all is_digit ds"
    if "extractPositionAndRank tok = Some r" for r
  proof -
    from that have "match_positions BASE_POSITIONS (toUpperCase tok) = Some r"
      by (simp add: extractPositionAndRank_def split: if_splits)
    from match_positions_sound [OF this] show ?thesis by blast
  qed
  have iff: "(\<exists>r. extractPositionAndRank tok = Some r) \<longleftrightarrow>
      (\<exists>pos \<in> set BASE_POSITIONS. \<exists>ds. toUpperCase tok = pos @ ds \<and> list_all is_digit ds)"
  proof
    assume "\<exists>r. extractPositionAndRank tok = Some r"
    then show "\<exists>pos \<in> set BASE_POSITIONS. \<exists>ds. toUpperCase tok = pos @ ds \<and> list_all is_digit ds"
      using sound by (elim exE)
  next
    assume "\<exists>pos \<in> set BASE_POSITIONS. \<exists>ds. toUpperCase tok = pos @ ds \<and> list_all is_digit ds"
    then obtain pos ds where "pos \<in> set BASE_POSITIONS" "toUpperCase tok = pos @ ds"
      "list_all is_digit ds" by (elim bexE exE conjE)
    from complete [OF this] show "\<exists>r. extractPositionAndRank tok = Some r" by (rule exI)
  qed
  have all: "\<forall>pos \<in> set BASE_POSITIONS. \<forall>ds.
        toUpperCase tok = pos @ ds \<and> list_all is_digit ds \<longrightarrow>
        extractPositionAndRank tok =
          Some \<lparr>base = (if pos = ''DEF'' then ''DST'' else pos),
                prank = (if ds = [] then None else Some (to_number False (dec_val ds)))\<rparr>"
    using complete by (intro ballI allI impI) (elim conjE)
  have num: "list_all is_digit tok \<longrightarrow> extractPositionAndRank tok = None"
    using extract_numeric by (intro impI)
  have exact: "\<forall>n < 2 ^ 53. to_number False n = Finite n"
    by (simp add: to_number_exact)
  have rounded: "\<forall>n \<ge> 2 ^ 53. \<exists>q e. 2 ^ 52 \<le> q \<and> q \<le> 2 ^ 53
          \<and> 2 * \<bar>q * 2 ^ e - n\<bar> \<le> 2 ^ e
          \<and> to_number False n =
              (if 2 ^ 1024 \<le> q * 2 ^ e then PosInfinity else Finite (q * 2 ^ e))"
    using to_number_rounded by (intro allI impI)
  from iff all exact rounded num show ?thesis by (intro conjI)
qed

theorem extractPositionAndRank_spec_witness:
  "''DEF'' \<in> set BASE_POSITIONS \<and> toUpperCase ''def12'' = ''DEF'' @ ''12'' \<and> list_all is_digit ''12''
   \<and> extractPositionAndRank ''def12'' = Some \<lparr>base = ''DST'', prank = Some (Finite 12)\<rparr>
   \<and> (12::int) < 2 ^ 53 \<and> to_number False 12 = Finite 12
   \<and> (2::int) ^ 53 \<le> 9007199254740993
   \<and> (\<exists>q e. (2::int) ^ 52 \<le> q \<and> q \<le> 2 ^ 53
          \<and> 2 * \<bar>q * 2 ^ e - 9007199254740993\<bar> \<le> 2 ^ e
          \<and> to_number False 9007199254740993 =
              (if 2 ^ 1024 \<le> q * 2 ^ e then PosInfinity else Finite (q * 2 ^ e)))
   \<and> list_all is_digit ''2024'' \<and> extractPositionAndRank ''2024'' = None"
proof -
  have h1: "''DEF'' \<in> set BASE_POSITIONS" by code_simp
  have h2: "toUpperCase ''def12'' = ''DEF'' @ ''12''" by code_simp
  have h3: "list_all is_digit ''12''" by code_simp
  have h4: "list_all is_digit ''2024''" by code_simp
  have h5: "(12::int) < 2 ^ 53" by simp
  have v: "to_number False (dec_val ''12'') = Finite 12" by code_simp
  have "extractPositionAndRank ''def12'' =
     Some \<lparr>base = (if ''DEF'' = ''DEF'' then ''DST'' else ''DEF''),
           prank = (if ''12'' = [] then None else Some (to_number False (dec_val ''12'')))\<rparr>"
    by (rule extractPositionAndRank_spec [of "''def12''", THEN conjunct2, THEN conjunct1,
          THEN bspec, OF h1, THEN spec, THEN mp, OF conjI [OF h2 h3]])
  then have c1: "extractPositionAndRank ''def12'' = Some \<lparr>base = ''DST'', prank = Some (Finite 12)\<rparr>"
    by (simp add: v)
  have c3: "to_number False 12 = Finite 12"
    by (rule extractPositionAndRank_spec [of "''def12''", THEN conjunct2, THEN conjunct2,
          THEN conjunct1, THEN spec, THEN mp, OF h5])
  have c2: "extractPositionAndRank ''2024'' = None"
    by (rule extractPositionAndRank_spec [of "''2024''", THEN conjunct2, THEN conjunct2,
          THEN conjunct2, THEN conjunct2, THEN mp, OF h4])
  have h6: "(2::int) ^ 53 \<le> 9007199254740993" by simp
  have c4: "\<exists>q e. (2::int) ^ 52 \<le> q \<and> q \<le> 2 ^ 53
          \<and> 2 * \<bar>q * 2 ^ e - 9007199254740993\<bar> \<le> 2 ^ e
          \<and> to_number False 9007199254740993 =
              (if 2 ^ 1024 \<le> q * 2 ^ e then PosInfinity else Finite (q * 2 ^ e))"
    by (rule extractPositionAndRank_spec [of "''def12''", THEN conjunct2, THEN conjunct2,
          THEN conjunct2, THEN conjunct1, THEN spec, THEN mp, OF h6])
  show ?thesis
    by (intro conjI h1 h2 h3 h4 h5 h6 c1 c2 c3 c4)
qed

section \<open>Skipped lines, order and totality\<close>

lemma js_index_snoc_last:
  "js_index (xs @ [a, b]) (int (length (xs @ [a, b])) - 1) = Some b"
proof -
  have e: "int (length (xs @ [a, b])) - 1 = int (Suc (length xs))" by simp
  have n: "(xs @ [a, b]) ! Suc (length xs) = b" by (simp add: nth_append)
  show ?thesis
    unfolding e js_index_def nat_int n by simp
qed

lemma js_index_snoc_prev:
  "js_index (xs @ [a, b]) (int (length (xs @ [a, b])) - 2) = Some a"
proof -
  have e: "int (length (xs @ [a, b])) - 2 = int (length xs)" by simp
  have n: "(xs @ [a, b]) ! length xs = a" by (simp add: nth_append)
  show ?thesis
    unfolding e js_index_def nat_int n by simp
qed

lemma resolve_team_single:
  assumes "extractPositionAndRank p1 = None"
  shows "\<exists>t n. resolve_team [p1] = Inr (None, t, n)"
  using assms by (simp add: resolve_team_def js_index_def Let_def)

lemma resolve_team_last_two:
  assumes "extractPositionAndRank p1 = None" and "extractPositionAndRank p2 = None"
  shows "\<exists>t n. resolve_team (xs @ [p2, p1]) = Inr (None, t, n)"
proof -
  have l1: "js_index (xs @ [p2, p1]) (int (length (xs @ [p2, p1])) - 1) = Some p1"
    by (rule js_index_snoc_last)
  have l2: "js_index (xs @ [p2, p1]) (int (length (xs @ [p2, p1])) - 2) = Some p2"
    by (rule js_index_snoc_prev)
  have gt: "int (length (xs @ [p2, p1])) > 1" by simp
  show ?thesis
    unfolding resolve_team_def Let_def l1 l2
    using gt assms by simp
qed

text \<open>
  C3. In the team-aware variant, a line whose last token is a team token that is not a
  position, and whose second-to-last token does not match a position, emits no record;
  in particular \<open>7 Some Guy KC\<close> does not.
\<close>

theorem trailing_team_without_position_skipped:
  assumes "parts_team line = front @ [p2, p1]"
    and "isTeam p1"
    and "extractPositionAndRank p1 = None"
    and "extractPositionAndRank p2 = None"
  shows "parseLine_team line = Inr None"
proof (cases front)
  case Nil
  with assms(1) have parts: "parts_team line = [p2, p1]" by simp
  obtain t n where "resolve_team [p1] = Inr (None, t, n)"
    using resolve_team_single [OF assms(3)] by blast
  then show ?thesis
    by (simp add: parseLine_team_def parts js_index_def Let_def split: option.splits)
next
  case (Cons f fs)
  with assms(1) have parts: "parts_team line = f # fs @ [p2, p1]" by simp
  obtain t n where "resolve_team (fs @ [p2, p1]) = Inr (None, t, n)"
    using resolve_team_last_two [OF assms(3) assms(4)] by blast
  then show ?thesis
    by (simp add: parseLine_team_def parts js_index_def Let_def split: option.splits)
qed

theorem trailing_team_without_position_skipped_witness:
  "parts_team ''7 Some Guy KC'' = [''7'', ''Some''] @ [''Guy'', ''KC'']
   \<and> isTeam ''KC'' \<and> extractPositionAndRank ''KC'' = None
   \<and> extractPositionAndRank ''Guy'' = None
   \<and> parseLine_team ''7 Some Guy KC'' = Inr None"
proof -
  have h1: "parts_team ''7 Some Guy KC'' = [''7'', ''Some''] @ [''Guy'', ''KC'']" by code_simp
  have h2: "isTeam ''KC''" by code_simp
  have h3: "extractPositionAndRank ''KC'' = None" by code_simp
  have h4: "extractPositionAndRank ''Guy'' = None" by code_simp
  show ?thesis
    by (intro conjI h1 h2 h3 h4 trailing_team_without_position_skipped [OF h1 h2 h3 h4])
qed

lemma concat_map_skip:
  "f x = [] \<Longrightarrow> concat (map f xs) = concat (map f (filter (\<lambda>l. l \<noteq> x) xs))"
  by (induction xs) auto

text \<open>
  C5. If the first token of a line, after one trailing full stop or closing parenthesis
  is removed, does not parse as an integer, the line emits no record, and the output for
  any text is what the other lines emit: parsing goes on with them.
\<close>

theorem non_numeric_rank_skipped:
  assumes "parts_team line = tok # rest"
    and "parseInt (strip_rank_suffix tok) = None"
  shows "parseLine_team line = Inr None
    \<and> parseRankingsFromText_team text =
        Inr (concat (map (emitted parseLine_team)
               (filter (\<lambda>l. l \<noteq> line) (nonblank_lines text))))"
proof -
  have skip: "parseLine_team line = Inr None"
    using assms by (simp add: parseLine_team_def js_index_def Let_def)
  then have "emitted parseLine_team line = []"
    by (simp add: emitted_def)
  from concat_map_skip [of "emitted parseLine_team", OF this] skip
  show ?thesis by (simp add: parse_team_eq)
qed

theorem non_numeric_rank_skipped_witness:
  "parts_team ''x. Joe Doe QB'' = ''x.'' # [''Joe'', ''Doe'', ''QB'']
   \<and> parseInt (strip_rank_suffix ''x.'') = None
   \<and> parseLine_team ''x. Joe Doe QB'' = Inr None
   \<and> parseRankingsFromText_team (''x. Joe Doe QB'' @ [CHR 0x0A] @ ''2. Al Bo RB'') =
       Inr [\<lparr>rank = Finite 2, name = ''Al Bo'', position = ''RB'', positionalRank = None, team = None\<rparr>]"
proof -
  have h1: "parts_team ''x. Joe Doe QB'' = ''x.'' # [''Joe'', ''Doe'', ''QB'']" by code_simp
  have h2: "parseInt (strip_rank_suffix ''x.'') = None" by code_simp
  have v: "concat (map (emitted parseLine_team)
               (filter (\<lambda>l. l \<noteq> ''x. Joe Doe QB'')
                  (nonblank_lines (''x. Joe Doe QB'' @ [CHR 0x0A] @ ''2. Al Bo RB'')))) =
       [\<lparr>rank = Finite 2, name = ''Al Bo'', position = ''RB'', positionalRank = None, team = None\<rparr>]"
    by code_simp
  note t = non_numeric_rank_skipped [OF h1 h2,
      of "''x. Joe Doe QB'' @ [CHR 0x0A] @ ''2. Al Bo RB''"]
  from t have c1: "parseLine_team ''x. Joe Doe QB'' = Inr None" by (rule conjunct1)
  from t have "parseRankingsFromText_team (''x. Joe Doe QB'' @ [CHR 0x0A] @ ''2. Al Bo RB'') =
        Inr (concat (map (emitted parseLine_team)
               (filter (\<lambda>l. l \<noteq> ''x. Joe Doe QB'')
                  (nonblank_lines (''x. Joe Doe QB'' @ [CHR 0x0A] @ ''2. Al Bo RB'')))))"
    by (rule conjunct2)
  then have c2: "parseRankingsFromText_team (''x. Joe Doe QB'' @ [CHR 0x0A] @ ''2. Al Bo RB'') =
       Inr [\<lparr>rank = Finite 2, name = ''Al Bo'', position = ''RB'', positionalRank = None, team = None\<rparr>]"
    unfolding v .
  show ?thesis by (intro conjI h1 h2 c1 c2)
qed

text \<open>
  C7. The output keeps the order of the lines: when a line emitting the record \<open>A\<close>
  comes before a line emitting \<open>B\<close>, the output is the records of the lines before,
  then \<open>A\<close>, the records of the lines between, \<open>B\<close>, and the records of the lines
  after. It is not sorted by rank: a rank 2 line before a rank 1 line stays first.
\<close>

theorem output_keeps_line_order:
  assumes "nonblank_lines text = xs @ la # ys @ lb # zs"
    and "parseLine_team la = Inr (Some A)"
    and "parseLine_team lb = Inr (Some B)"
  shows "parseRankingsFromText_team text =
      Inr (concat (map (emitted parseLine_team) xs) @ A #
           concat (map (emitted parseLine_team) ys) @ B #
           concat (map (emitted parseLine_team) zs))"
proof -
  have "emitted parseLine_team la = [A]" and "emitted parseLine_team lb = [B]"
    using assms(2,3) by (simp_all add: emitted_def)
  then show ?thesis
    by (simp add: parse_team_eq assms(1))
qed

theorem output_keeps_line_order_witness:
  "nonblank_lines (''2 Al Bo RB'' @ [CHR 0x0A] @ ''1 Cy Di QB'') =
      [] @ ''2 Al Bo RB'' # [] @ ''1 Cy Di QB'' # []
   \<and> parseLine_team ''2 Al Bo RB'' =
      Inr (Some \<lparr>rank = Finite 2, name = ''Al Bo'', position = ''RB'', positionalRank = None, team = None\<rparr>)
   \<and> parseLine_team ''1 Cy Di QB'' =
      Inr (Some \<lparr>rank = Finite 1, name = ''Cy Di'', position = ''QB'', positionalRank = None, team = None\<rparr>)
   \<and> parseRankingsFromText_team (''2 Al Bo RB'' @ [CHR 0x0A] @ ''1 Cy Di QB'') =
      Inr [\<lparr>rank = Finite 2, name = ''Al Bo'', position = ''RB'', positionalRank = None, team = None\<rparr>,
           \<lparr>rank = Finite 1, name = ''Cy Di'', position = ''QB'', positionalRank = None, team = None\<rparr>]"
proof -
  have h1: "nonblank_lines (''2 Al Bo RB'' @ [CHR 0x0A] @ ''1 Cy Di QB'') =
      [] @ ''2 Al Bo RB'' # [] @ ''1 Cy Di QB'' # []" by code_simp
  have h2: "parseLine_team ''2 Al Bo RB'' =
      Inr (Some \<lparr>rank = Finite 2, name = ''Al Bo'', position = ''RB'', positionalRank = None, team = None\<rparr>)"
    by code_simp
  have h3: "parseLine_team ''1 Cy Di QB'' =
      Inr (Some \<lparr>rank = Finite 1, name = ''Cy Di'', position = ''QB'', positionalRank = None, team = None\<rparr>)"
    by code_simp
  from output_keeps_line_order [OF h1 h2 h3]
  have c: "parseRankingsFromText_team (''2 Al Bo RB'' @ [CHR 0x0A] @ ''1 Cy Di QB'') =
      Inr [\<lparr>rank = Finite 2, name = ''Al Bo'', position = ''RB'', positionalRank = None, team = None\<rparr>,
           \<lparr>rank = Finite 1, name = ''Cy Di'', position = ''QB'', positionalRank = None, team = None\<rparr>]"
    by simp
  show ?thesis by (intro conjI h1 h2 h3 c)
qed

lemma split_nl_chars: "l \<in> set (split_nl s) \<Longrightarrow> set l \<subseteq> set s"
proof (induction s arbitrary: l)
  case Nil
  then show ?case by simp
next
  case (Cons c cs)
  show ?case
  proof (cases "c = CHR 0x0A")
    case True
    with Cons show ?thesis by auto
  next
    case False
    show ?thesis
    proof (cases "split_nl cs")
      case Nil
      with False Cons.prems show ?thesis by simp
    next
      case (Cons m ms)
      with False Cons.prems have "l = c # m \<or> l \<in> set ms" by simp
      moreover have "set m \<subseteq> set cs" and "\<And>k. k \<in> set ms \<Longrightarrow> set k \<subseteq> set cs"
        using Cons.IH Cons by simp_all
      ultimately show ?thesis by auto
    qed
  qed
qed

lemma trim_all_ws:
  assumes "\<forall>c \<in> set l. is_ws c"
  shows "trim l = []"
proof -
  from assms have d: "dropWhile is_ws l = []" by simp
  show ?thesis unfolding trim_def d by simp
qed

lemma nonblank_lines_all_ws:
  assumes "list_all is_ws text"
  shows "nonblank_lines text = []"
proof -
  have "trim l = []" if "l \<in> set (split_nl text)" for l
  proof (rule trim_all_ws)
    from assms have "\<forall>c \<in> set text. is_ws c" by (simp add: list_all_iff)
    with split_nl_chars [OF that] show "\<forall>c \<in> set l. is_ws c" by blast
  qed
  then show ?thesis
    by (simp add: nonblank_lines_def filter_empty_conv)
qed

text \<open>
  C8. For every input the team-aware \<open>parseRankingsFromText\<close> returns a list of
  records, never the failure of the \<open>catch\<close> branch; an empty or whitespace-only input
  gives the empty list.
\<close>

theorem parse_never_fails:
  "(\<exists>ps. parseRankingsFromText_team text = Inr ps)
   \<and> (list_all is_ws text \<longrightarrow> parseRankingsFromText_team text = Inr [])"
proof (intro conjI impI)
  show "\<exists>ps. parseRankingsFromText_team text = Inr ps"
    by (simp add: parse_team_eq)
next
  assume "list_all is_ws text"
  then show "parseRankingsFromText_team text = Inr []"
    by (simp add: parse_team_eq nonblank_lines_all_ws)
qed

theorem parse_never_fails_witness:
  "list_all is_ws ('' '' @ [CHR 0x0A, CHR 0x09] @ ''  '')
   \<and> parseRankingsFromText_team ('' '' @ [CHR 0x0A, CHR 0x09] @ ''  '') = Inr []
   \<and> parseRankingsFromText_team [] = Inr []"
proof -
  have h: "list_all is_ws ('' '' @ [CHR 0x0A, CHR 0x09] @ ''  '')" by code_simp
  have e: "list_all is_ws []" by simp
  show ?thesis
    by (intro conjI h parse_never_fails [THEN conjunct2, THEN mp, OF h]
        parse_never_fails [THEN conjunct2, THEN mp, OF e])
qed

section \<open>What an emitted record holds\<close>
















section \<open>Matchup stripping\<close>

lemma smf_prefix: "prefix (split_matchup_first s) s"
  by (induction s) simp_all

lemma smf_decomp:
  "\<exists>suffix. s = split_matchup_first s @ suffix
      \<and> (suffix = [] \<or> prefix '' vs '' suffix \<or> prefix '' @ '' suffix)"
proof (induction s)
  case Nil
  then show ?case by simp
next
  case (Cons c cs)
  show ?case
  proof (cases "prefix '' vs '' (c # cs) \<or> prefix '' @ '' (c # cs)")
    case True
    then show ?thesis by auto
  next
    case False
    from Cons obtain suffix where "cs = split_matchup_first cs @ suffix"
      and "suffix = [] \<or> prefix '' vs '' suffix \<or> prefix '' @ '' suffix" by blast
    with False show ?thesis by auto
  qed
qed

lemma smf_first:
  "i < length (split_matchup_first s) \<Longrightarrow>
     \<not> prefix '' vs '' (drop i s) \<and> \<not> prefix '' @ '' (drop i s)"
proof (induction s arbitrary: i)
  case Nil
  then show ?case by simp
next
  case (Cons c cs)
  show ?case
  proof (cases "prefix '' vs '' (c # cs) \<or> prefix '' @ '' (c # cs)")
    case True
    with Cons.prems show ?thesis by simp
  next
    case False
    show ?thesis
    proof (cases i)
      case 0
      with False show ?thesis by simp
    next
      case (Suc j)
      from False have "split_matchup_first (c # cs) = c # split_matchup_first cs"
        by (simp del: Cons_prefix_Cons)
      with Cons.prems Suc have "j < length (split_matchup_first cs)" by simp
      from Cons.IH [OF this] Suc show ?thesis by simp
    qed
  qed
qed

lemma smf_idem: "split_matchup_first (split_matchup_first s) = split_matchup_first s"
proof (induction s)
  case Nil
  then show ?case by simp
next
  case (Cons c cs)
  show ?case
  proof (cases "prefix '' vs '' (c # cs) \<or> prefix '' @ '' (c # cs)")
    case True
    then show ?thesis by simp
  next
    case False
    have p: "prefix (c # split_matchup_first cs) (c # cs)"
      using smf_prefix [of cs] by simp
    have "\<not> prefix '' vs '' (c # split_matchup_first cs)"
      and "\<not> prefix '' @ '' (c # split_matchup_first cs)"
      using False p prefix_order.order_trans by blast+
    with False Cons.IH show ?thesis by simp
  qed
qed

lemma replace_tabs_no_tab: "CHR 0x09 \<notin> set s \<Longrightarrow> replace_tabs s = s"
  unfolding replace_tabs_def by (induction s) auto

lemma no_tab_after_replace: "CHR 0x09 \<notin> set (replace_tabs s)"
  by (auto simp: replace_tabs_def)

lemma parts_team_cut:
  "parts_team (split_matchup_first (replace_tabs line)) = parts_team line"
proof -
  let ?cut = "split_matchup_first (replace_tabs line)"
  have "set ?cut \<subseteq> set (replace_tabs line)"
    using smf_prefix set_mono_prefix by blast
  with no_tab_after_replace have "CHR 0x09 \<notin> set ?cut" by blast
  then have "replace_tabs ?cut = ?cut" by (rule replace_tabs_no_tab)
  then show ?thesis
    by (simp add: parts_team_def smf_idem)
qed

lemma parseLine_team_parts:
  "parts_team l1 = parts_team l2 \<Longrightarrow> parseLine_team l1 = parseLine_team l2"
  by (simp add: parseLine_team_def)

text \<open>
  C4, as the code has it. The team-aware line parser first replaces every tab by a space
  and then cuts the line at the first occurrence of \<open>" vs "\<close> or \<open>" @ "\<close>, whichever
  comes first: the tab-replaced line is the kept prefix followed by nothing or by a text
  that starts with one of the two separators, no separator starts inside the kept
  prefix, the tokens are those of the kept prefix, and the parse of the line is the parse
  of the kept prefix alone. So \<open>12 Justin Jefferson WR1 vs GB\<close> yields the name Justin
  Jefferson, position WR, positional rank 1, without team.
\<close>

theorem matchup_stripped_after_tabs:
  "(\<exists>suffix. replace_tabs line = split_matchup_first (replace_tabs line) @ suffix
        \<and> (suffix = [] \<or> prefix '' vs '' suffix \<or> prefix '' @ '' suffix))
   \<and> (\<forall>i < length (split_matchup_first (replace_tabs line)).
         \<not> prefix '' vs '' (drop i (replace_tabs line))
         \<and> \<not> prefix '' @ '' (drop i (replace_tabs line)))
   \<and> parts_team line = split_ws (trim (split_matchup_first (replace_tabs line)))
   \<and> parseLine_team line = parseLine_team (split_matchup_first (replace_tabs line))
   \<and> parseLine_team ''12 Justin Jefferson WR1 vs GB'' =
        Inr (Some \<lparr>rank = Finite 12, name = ''Justin Jefferson'', position = ''WR'',
                   positionalRank = Some (Finite 1), team = None\<rparr>)"
proof (intro conjI allI impI)
  show "\<exists>suffix. replace_tabs line = split_matchup_first (replace_tabs line) @ suffix
        \<and> (suffix = [] \<or> prefix '' vs '' suffix \<or> prefix '' @ '' suffix)"
    by (rule smf_decomp)
next
  fix i assume "i < length (split_matchup_first (replace_tabs line))"
  from smf_first [OF this]
  show "\<not> prefix '' vs '' (drop i (replace_tabs line))"
    and "\<not> prefix '' @ '' (drop i (replace_tabs line))" by simp_all
next
  show "parts_team line = split_ws (trim (split_matchup_first (replace_tabs line)))"
    by (simp add: parts_team_def)
next
  show "parseLine_team line = parseLine_team (split_matchup_first (replace_tabs line))"
    by (rule parseLine_team_parts) (simp add: parts_team_cut)
next
  show "parseLine_team ''12 Justin Jefferson WR1 vs GB'' =
        Inr (Some \<lparr>rank = Finite 12, name = ''Justin Jefferson'', position = ''WR'',
                   positionalRank = Some (Finite 1), team = None\<rparr>)"
    by code_simp
qed

theorem matchup_stripped_after_tabs_witness:
  "split_matchup_first (replace_tabs ''1 Al Bo TE @ NYJ vs x'') = ''1 Al Bo TE''
   \<and> (7::nat) < length (split_matchup_first (replace_tabs ''1 Al Bo TE @ NYJ vs x''))
   \<and> \<not> prefix '' vs '' (drop 7 (replace_tabs ''1 Al Bo TE @ NYJ vs x''))
   \<and> \<not> prefix '' @ '' (drop 7 (replace_tabs ''1 Al Bo TE @ NYJ vs x''))
   \<and> parseLine_team ''1 Al Bo TE @ NYJ vs x'' = parseLine_team ''1 Al Bo TE''"
proof -
  have c: "split_matchup_first (replace_tabs ''1 Al Bo TE @ NYJ vs x'') = ''1 Al Bo TE''"
    by code_simp
  have h: "(7::nat) < length (split_matchup_first (replace_tabs ''1 Al Bo TE @ NYJ vs x''))"
    by code_simp
  note t = matchup_stripped_after_tabs [of "''1 Al Bo TE @ NYJ vs x''"]
  from t have "\<forall>i < length (split_matchup_first (replace_tabs ''1 Al Bo TE @ NYJ vs x'')).
         \<not> prefix '' vs '' (drop i (replace_tabs ''1 Al Bo TE @ NYJ vs x''))
         \<and> \<not> prefix '' @ '' (drop i (replace_tabs ''1 Al Bo TE @ NYJ vs x''))"
    by (rule conjunct2 [THEN conjunct1])
  then have n: "\<not> prefix '' vs '' (drop 7 (replace_tabs ''1 Al Bo TE @ NYJ vs x''))
         \<and> \<not> prefix '' @ '' (drop 7 (replace_tabs ''1 Al Bo TE @ NYJ vs x''))"
    using h by blast
  from t have "parseLine_team ''1 Al Bo TE @ NYJ vs x'' =
      parseLine_team (split_matchup_first (replace_tabs ''1 Al Bo TE @ NYJ vs x''))"
    by (rule conjunct2 [THEN conjunct2, THEN conjunct2, THEN conjunct1])
  then have p: "parseLine_team ''1 Al Bo TE @ NYJ vs x'' = parseLine_team ''1 Al Bo TE''"
    unfolding c .
  from n have n1: "\<not> prefix '' vs '' (drop 7 (replace_tabs ''1 Al Bo TE @ NYJ vs x''))"
    and n2: "\<not> prefix '' @ '' (drop 7 (replace_tabs ''1 Al Bo TE @ NYJ vs x''))"
    by (rule conjunct1, rule conjunct2)
  show ?thesis by (intro conjI c h n1 n2 p)
qed

text \<open>
  C4 as stated cuts the line itself at the first literal \<open>" vs "\<close> or \<open>" @ "\<close>. The
  tab-separated line \<open>12<TAB>Justin Jefferson<TAB>WR1<TAB>vs<TAB>GB\<close> holds neither, so its
  literal cut is the whole line, with the six tokens up to \<open>GB\<close>; the code, which replaces
  the tabs first, keeps the four tokens up to \<open>WR1\<close>.
\<close>

theorem literal_truncation_counterexample:
  "split_matchup_first (''12'' @ [CHR 0x09] @ ''Justin Jefferson'' @ [CHR 0x09] @ ''WR1''
       @ [CHR 0x09] @ ''vs'' @ [CHR 0x09] @ ''GB'') =
     ''12'' @ [CHR 0x09] @ ''Justin Jefferson'' @ [CHR 0x09] @ ''WR1''
       @ [CHR 0x09] @ ''vs'' @ [CHR 0x09] @ ''GB''
   \<and> split_ws (trim (''12'' @ [CHR 0x09] @ ''Justin Jefferson'' @ [CHR 0x09] @ ''WR1''
       @ [CHR 0x09] @ ''vs'' @ [CHR 0x09] @ ''GB'')) =
     [''12'', ''Justin'', ''Jefferson'', ''WR1'', ''vs'', ''GB'']
   \<and> parts_team (''12'' @ [CHR 0x09] @ ''Justin Jefferson'' @ [CHR 0x09] @ ''WR1''
       @ [CHR 0x09] @ ''vs'' @ [CHR 0x09] @ ''GB'') =
     [''12'', ''Justin'', ''Jefferson'', ''WR1'']"
  by code_simp

end
